theory Spec2Isabelle
  imports Main
begin

section \<open>The lockfile graph\<close>

text \<open>
  The component \<open>LockfileEntryDetailsView\<close> works on objects built by the lockfile parser:
  \<open>LockfileEntry\<close> nodes that point at each other through their \<open>referrers\<close> arrays and
  through the \<open>resolvedEntry\<close> of their dependencies. JavaScript compares such objects by
  identity (the \<open>Set<LockfileEntry>\<close> of the search does), so an entry is named here by a
  reference and the objects live in a store.
\<close>

type_synonym ref = nat

text \<open>
  Modelled from the spec: the enum \<open>IDependencyType\<close> is declared in
  \<open>parsing/LockfileDependency\<close>, which is not among the sources at hand. The view names
  only its member \<open>PEER_DEPENDENCY\<close>; the spec lists the kinds as "normal, peer, etc.".
\<close>

datatype IDependencyType = DEPENDENCY | DEV_DEPENDENCY | PEER_DEPENDENCY

text \<open>The fields of a \<open>LockfileDependency\<close> that the click handler reads.\<close>

record LockfileDependency =
  name :: string
  dependencyType :: IDependencyType
  entryId :: string
  resolvedEntry :: "ref option"

text \<open>The fields of a \<open>LockfileEntry\<close> that the influencer search reads.\<close>

record LockfileEntry =
  dependencies :: "LockfileDependency list"
  referrers :: "ref list"
  transitivePeerDependencies :: "string set"

text \<open>
  The store is a finite table from references to entries. Every reference of the running
  program points at an object; a reference the table does not hold is read as an entry
  with no dependencies, no referrers and no transitive peer dependencies.
\<close>

type_synonym heap = "(ref \<times> LockfileEntry) list"

definition entryAt :: "heap \<Rightarrow> ref \<Rightarrow> LockfileEntry" where
  "entryAt h r =
     (case map_of h r of
        Some e \<Rightarrow> e
      | None \<Rightarrow> \<lparr>dependencies = [], referrers = [], transitivePeerDependencies = {}\<rparr>)"

datatype DependencyType = Determinant | TransitiveReferrer

record IInfluencerType =
  entry :: ref
  type :: DependencyType

section \<open>The influencer search\<close>

text \<open>
  The local variables of the search (lines 59 to 63 of the view), the graph it walks and
  what it writes with \<open>console.error\<close>. The head of \<open>stack\<close> is the top of the JavaScript
  array: \<open>push\<close> conses and \<open>pop\<close> takes the head. A JavaScript \<open>Set\<close> keeps its members in
  insertion order without repetition, and is a list here. \<open>pushes\<close> and \<open>pops\<close> are not
  variables of the source: they record, in order, every entry that was put on the stack
  (the initial one included) and every entry that \<open>stack.pop()\<close> returned.
\<close>

record Search =
  graph :: heap
  stack :: "ref list"
  determinants :: "ref list"
  transitiveReferrers :: "ref list"
  visitedNodes :: "ref list"
  errors :: "(LockfileDependency \<times> ref \<times> ref) list"
  pushes :: "ref list"
  pops :: "ref list"

text \<open>\<open>Set.prototype.add\<close>: a member already present is not added again.\<close>

definition add :: "'a \<Rightarrow> 'a list \<Rightarrow> 'a list" where
  "add x xs = (if x \<in> set xs then xs else xs @ [x])"

text \<open>
  Lines 68 to 75: the loop over \<open>referrer.dependencies\<close> sets \<open>hasDependency\<close> at the first
  dependency whose name is the traced one and breaks.
\<close>

fun hasDependency :: "LockfileDependency list \<Rightarrow> string \<Rightarrow> bool" where
  "hasDependency [] n = False"
| "hasDependency (d # ds) n = (if name d = n then True else hasDependency ds n)"

text \<open>Lines 94 to 97, the body of the inner loop.\<close>

definition pushUnvisited :: "ref \<Rightarrow> Search \<Rightarrow> Search" where
  "pushUnvisited r s =
     (if r \<in> set (visitedNodes s) then s
      else s\<lparr>stack := r # stack s,
             visitedNodes := add r (visitedNodes s),
             pushes := pushes s @ [r]\<rparr>)"

text \<open>
  Lines 68 to 99, the body of the loop over \<open>currEntry.referrers\<close>, for the referrer \<open>r\<close> of
  the popped entry \<open>c\<close>. The inner loop of lines 93 to 98 runs over the referrers of
  \<open>currEntry\<close> again, not over those of \<open>r\<close>.
\<close>

definition examine :: "LockfileDependency \<Rightarrow> ref \<Rightarrow> ref \<Rightarrow> Search \<Rightarrow> Search" where
  "examine dependencyToTrace c r s =
     (if hasDependency (dependencies (entryAt (graph s) r)) (name dependencyToTrace)
      then s\<lparr>determinants := add r (determinants s)\<rparr>
      else
        fold pushUnvisited (referrers (entryAt (graph s) c))
          (if name dependencyToTrace \<in> transitivePeerDependencies (entryAt (graph s) r)
           then s\<lparr>transitiveReferrers := add r (transitiveReferrers s)\<rparr>
           else s\<lparr>errors := errors s @ [(dependencyToTrace, r, c)]\<rparr>))"

text \<open>Lines 65 to 101: one turn of the while loop, on a stack that is not empty.\<close>

definition step :: "LockfileDependency \<Rightarrow> Search \<Rightarrow> Search" where
  "step dependencyToTrace s =
     (case stack s of
        [] \<Rightarrow> s
      | c # rest \<Rightarrow>
          fold (examine dependencyToTrace c) (referrers (entryAt (graph s) c))
            (s\<lparr>stack := rest, pops := pops s @ [c]\<rparr>))"

text \<open>
  The references a graph mentions as referrers, and the measure of the while loop: the
  mentioned references not yet visited, plus the height of the stack.
\<close>

definition mentioned :: "heap \<Rightarrow> ref set" where
  "mentioned h = (\<Union>e \<in> snd ` set h. set (referrers e))"

definition work :: "Search \<Rightarrow> nat" where
  "work s = card (mentioned (graph s) - set (visitedNodes s)) + length (stack s)"

text \<open>Lines 64 to 102: the while loop.\<close>

function loop :: "LockfileDependency \<Rightarrow> Search \<Rightarrow> Search" where
  "loop dependencyToTrace s =
     (if stack s = [] then s else loop dependencyToTrace (step dependencyToTrace s))"
  by pat_completeness auto

text \<open>
  Lines 59 to 63: the stack holds the selected entry, which is marked as visited; the two
  result sets are empty.
\<close>

definition init :: "heap \<Rightarrow> ref \<Rightarrow> Search" where
  "init h selectedEntry =
     \<lparr>graph = h, stack = [selectedEntry], determinants = [], transitiveReferrers = [],
      visitedNodes = [selectedEntry], errors = [], pushes = [selectedEntry], pops = []\<rparr>"

text \<open>Lines 59 to 102, the part of the handler under the comment "calculate influencers".\<close>

definition calculateInfluencers :: "heap \<Rightarrow> ref \<Rightarrow> LockfileDependency \<Rightarrow> Search" where
  "calculateInfluencers h selectedEntry dependencyToTrace =
     loop dependencyToTrace (init h selectedEntry)"

text \<open>Lines 103 to 115: the determinants first, then the transitive referrers.\<close>

definition influencersOf :: "Search \<Rightarrow> IInfluencerType list" where
  "influencersOf s =
     map (\<lambda>e. \<lparr>entry = e, type = Determinant\<rparr>) (determinants s) @
     map (\<lambda>e. \<lparr>entry = e, type = TransitiveReferrer\<rparr>) (transitiveReferrers s)"

section \<open>The click handler\<close>

text \<open>
  What the handler \<open>selectResolvedEntry\<close> reads and writes: the entries of the graph, the
  entry selected in the store, the two pieces of component state (lines 31 and 32), the
  \<open>pushToStack\<close> actions it dispatches and what it writes to the console.
\<close>

datatype ConsoleEvent =
    NoResolvedEntry LockfileDependency
  | DependencyToTrace LockfileDependency
  | MissingTransitivePeerDependencies LockfileDependency ref ref

record View =
  entries :: heap
  selectedEntry :: "ref option"
  inspectDependency :: "LockfileDependency option"
  influencers :: "IInfluencerType list"
  dispatched :: "ref list"
  console :: "ConsoleEvent list"

text \<open>
  Lines 41 to 118. A second click on the inspected dependency navigates to its resolved
  entry; a click on another dependency, with an entry selected, makes it the inspected
  one and, for a peer dependency only, computes and stores its influencers.
\<close>

definition selectResolvedEntry :: "LockfileDependency \<Rightarrow> View \<Rightarrow> View" where
  "selectResolvedEntry dependencyToTrace v =
     (if (case inspectDependency v of
            None \<Rightarrow> False
          | Some i \<Rightarrow> entryId i = entryId dependencyToTrace)
      then
        (case resolvedEntry dependencyToTrace of
           Some e \<Rightarrow> v\<lparr>dispatched := dispatched v @ [e]\<rparr>
         | None \<Rightarrow> v\<lparr>console := console v @ [NoResolvedEntry dependencyToTrace]\<rparr>)
      else
        (case selectedEntry v of
           None \<Rightarrow> v
         | Some sel \<Rightarrow>
             if dependencyType dependencyToTrace \<noteq> PEER_DEPENDENCY
             then v\<lparr>inspectDependency := Some dependencyToTrace,
                    console := console v @ [DependencyToTrace dependencyToTrace]\<rparr>
             else
               (let s = calculateInfluencers (entries v) sel dependencyToTrace
                in v\<lparr>entries := graph s,
                      inspectDependency := Some dependencyToTrace,
                      influencers := influencersOf s,
                      console := console v @ [DependencyToTrace dependencyToTrace] @
                        map (\<lambda>(d, r, c). MissingTransitivePeerDependencies d r c) (errors s)\<rparr>)))"

section \<open>Invariants of the search\<close>

text \<open>
  Shorthand for the two tests of lines 68 to 77 on a referrer \<open>r\<close>: one of its
  dependencies has the traced name; its \<open>transitivePeerDependencies\<close> set has the traced
  name.
\<close>

abbreviation declares :: "heap \<Rightarrow> LockfileDependency \<Rightarrow> ref \<Rightarrow> bool" where
  "declares h d r \<equiv> hasDependency (dependencies (entryAt h r)) (name d)"

abbreviation carries :: "heap \<Rightarrow> LockfileDependency \<Rightarrow> ref \<Rightarrow> bool" where
  "carries h d r \<equiv> name d \<in> transitivePeerDependencies (entryAt h r)"

text \<open>
  The stack discipline: what was pushed is what is marked as visited, nothing is marked
  twice, and an entry marked as visited is either still on the stack or was popped, never
  both and never twice.
\<close>

definition stackInv :: "Search \<Rightarrow> bool" where
  "stackInv s \<longleftrightarrow>
     pushes s = visitedNodes s \<and> distinct (visitedNodes s) \<and>
     distinct (pops s @ stack s) \<and> set (pops s) \<union> set (stack s) = set (visitedNodes s)"

text \<open>
  The result sets hold no entry twice; a determinant declares the traced name, a
  transitive referrer does not declare it and carries it.
\<close>

definition resultInv :: "LockfileDependency \<Rightarrow> Search \<Rightarrow> bool" where
  "resultInv d s \<longleftrightarrow>
     distinct (determinants s) \<and> distinct (transitiveReferrers s) \<and>
     (\<forall>r \<in> set (determinants s). declares (graph s) d r) \<and>
     (\<forall>r \<in> set (transitiveReferrers s). \<not> declares (graph s) d r \<and> carries (graph s) d r)"

text \<open>
  What the body of the loop over \<open>currEntry.referrers\<close> leaves behind for the referrer
  \<open>r\<close> of the popped entry \<open>c\<close>: a referrer that declares the name is a determinant;
  any other referrer is marked as visited, and is a transitive referrer or was reported.
  It holds for every referrer of every popped entry.
\<close>

definition examined :: "LockfileDependency \<Rightarrow> ref \<Rightarrow> ref \<Rightarrow> Search \<Rightarrow> bool" where
  "examined d c r s \<longleftrightarrow>
     (if declares (graph s) d r then r \<in> set (determinants s)
      else r \<in> set (visitedNodes s) \<and>
        (if carries (graph s) d r then r \<in> set (transitiveReferrers s)
         else (d, r, c) \<in> set (errors s)))"

definition examinedInv :: "LockfileDependency \<Rightarrow> Search \<Rightarrow> bool" where
  "examinedInv d s \<longleftrightarrow>
     (\<forall>c \<in> set (pops s). \<forall>r \<in> set (referrers (entryAt (graph s) c)). examined d c r s)"

text \<open>
  The diagnostics that one turn of the while loop writes for the popped entry \<open>c\<close>, in
  the order of its referrers \<open>rs\<close>; the diagnostics of the search are those of its pops.
\<close>

definition reported ::
  "heap \<Rightarrow> LockfileDependency \<Rightarrow> ref \<Rightarrow> ref list \<Rightarrow> (LockfileDependency \<times> ref \<times> ref) list"
where
  "reported h d c rs =
     map (\<lambda>r. (d, r, c)) (filter (\<lambda>r. \<not> declares h d r \<and> \<not> carries h d r) rs)"

definition errorsInv :: "LockfileDependency \<Rightarrow> Search \<Rightarrow> bool" where
  "errorsInv d s \<longleftrightarrow>
     errors s =
       concat (map (\<lambda>c. reported (graph s) d c (referrers (entryAt (graph s) c))) (pops s))"

section \<open>Example graphs\<close>

text \<open>
  A dependency named \<open>n\<close> of kind \<open>k\<close>, not resolved; the peer dependency that the
  examples trace, and a regular dependency.
\<close>

definition dep :: "string \<Rightarrow> IDependencyType \<Rightarrow> LockfileDependency" where
  "dep n k = \<lparr>name = n, dependencyType = k, entryId = n, resolvedEntry = None\<rparr>"

definition peerLib :: LockfileDependency where
  "peerLib = dep ''PeerLib'' PEER_DEPENDENCY"

definition lodash :: LockfileDependency where
  "lodash = dep ''lodash'' DEPENDENCY"

text \<open>
  The example of the specification: \<open>Root\<close> (entry 0) has the peer dependency
  \<open>PeerLib\<close> and the referrers \<open>rs\<close>; \<open>X\<close> (entry 1) declares \<open>PeerLib\<close>; \<open>Y\<close> (entry 2)
  does not declare it and lists it among its transitive peer dependencies.
\<close>

definition exampleGraph :: "ref list \<Rightarrow> heap" where
  "exampleGraph rs =
     [(0, \<lparr>dependencies = [peerLib], referrers = rs, transitivePeerDependencies = {}\<rparr>),
      (1, \<lparr>dependencies = [dep ''Root'' DEPENDENCY, dep ''PeerLib'' DEPENDENCY],
           referrers = [], transitivePeerDependencies = {}\<rparr>),
      (2, \<lparr>dependencies = [dep ''Root'' DEPENDENCY],
           referrers = [], transitivePeerDependencies = {''PeerLib''}\<rparr>)]"

text \<open>
  A chain: the only referrer of \<open>Root\<close> (entry 0) is \<open>T\<close> (entry 1), which carries
  \<open>PeerLib\<close> without declaring it; the only referrer of \<open>T\<close> is \<open>D\<close> (entry 2), which
  declares it.
\<close>

definition chainGraph :: heap where
  "chainGraph =
     [(0, \<lparr>dependencies = [peerLib], referrers = [1], transitivePeerDependencies = {}\<rparr>),
      (1, \<lparr>dependencies = [dep ''Root'' DEPENDENCY],
           referrers = [2], transitivePeerDependencies = {''PeerLib''}\<rparr>),
      (2, \<lparr>dependencies = [dep ''T'' DEPENDENCY, dep ''PeerLib'' DEPENDENCY],
           referrers = [], transitivePeerDependencies = {}\<rparr>)]"

text \<open>
  \<open>Root\<close> (entry 0) with the referrers \<open>rs\<close>, taken from \<open>D\<close> (entry 1), which declares
  \<open>PeerLib\<close>, and \<open>T\<close> (entry 2), which only carries it. \<open>D\<close> has one referrer, \<open>E\<close>
  (entry 3), which declares \<open>PeerLib\<close> as well.
\<close>

definition siblingGraph :: "ref list \<Rightarrow> heap" where
  "siblingGraph rs =
     [(0, \<lparr>dependencies = [peerLib], referrers = rs, transitivePeerDependencies = {}\<rparr>),
      (1, \<lparr>dependencies = [dep ''Root'' DEPENDENCY, dep ''PeerLib'' DEPENDENCY],
           referrers = [3], transitivePeerDependencies = {}\<rparr>),
      (2, \<lparr>dependencies = [dep ''Root'' DEPENDENCY],
           referrers = [], transitivePeerDependencies = {''PeerLib''}\<rparr>),
      (3, \<lparr>dependencies = [dep ''D'' DEPENDENCY, dep ''PeerLib'' DEPENDENCY],
           referrers = [], transitivePeerDependencies = {}\<rparr>)]"

text \<open>
  A diamond: \<open>R\<close> (entry 2) depends on \<open>Root\<close> (entry 0) and on \<open>A\<close> (entry 1), and
  \<open>A\<close> depends on \<open>Root\<close>. \<open>A\<close> carries \<open>PeerLib\<close>; \<open>R\<close> neither declares nor carries
  it.
\<close>

definition diamondGraph :: heap where
  "diamondGraph =
     [(0, \<lparr>dependencies = [peerLib], referrers = [1, 2], transitivePeerDependencies = {}\<rparr>),
      (1, \<lparr>dependencies = [dep ''Root'' DEPENDENCY],
           referrers = [2], transitivePeerDependencies = {''PeerLib''}\<rparr>),
      (2, \<lparr>dependencies = [dep ''Root'' DEPENDENCY, dep ''A'' DEPENDENCY],
           referrers = [], transitivePeerDependencies = {}\<rparr>)]"

text \<open>
  A cycle: \<open>A\<close> (entry 0) and \<open>B\<close> (entry 1) depend on each other.
\<close>

definition cycleGraph :: heap where
  "cycleGraph =
     [(0, \<lparr>dependencies = [peerLib, dep ''B'' DEPENDENCY],
           referrers = [1], transitivePeerDependencies = {}\<rparr>),
      (1, \<lparr>dependencies = [dep ''A'' DEPENDENCY],
           referrers = [0], transitivePeerDependencies = {''PeerLib''}\<rparr>)]"

text \<open>
  The view with \<open>Root\<close> of the example selected, before any click.
\<close>

definition exampleView :: View where
  "exampleView =
     \<lparr>entries = exampleGraph [1, 2], selectedEntry = Some 0, inspectDependency = None,
      influencers = [], dispatched = [], console = []\<rparr>"

section \<open>Termination of the while loop\<close>

lemma finite_mentioned: "finite (mentioned h)"
  by (simp add: mentioned_def)

lemma referrers_mentioned: "set (referrers (entryAt h c)) \<subseteq> mentioned h"
proof (cases "map_of h c")
  case None
  then show ?thesis by (simp add: entryAt_def)
next
  case (Some e)
  then have "(c, e) \<in> set h" by (rule map_of_SomeD)
  then have "e \<in> snd ` set h" by force
  with Some show ?thesis by (auto simp: entryAt_def mentioned_def)
qed

lemma graph_pushUnvisited: "graph (pushUnvisited r s) = graph s"
  by (simp add: pushUnvisited_def)

lemma graph_fold_pushUnvisited: "graph (fold pushUnvisited rs s) = graph s"
  by (induction rs arbitrary: s) (simp_all add: graph_pushUnvisited)

lemma graph_examine: "graph (examine d c r s) = graph s"
  by (simp add: examine_def graph_fold_pushUnvisited)

lemma graph_fold_examine: "graph (fold (examine d c) rs s) = graph s"
  by (induction rs arbitrary: s) (simp_all add: graph_examine)

lemma graph_step: "graph (step d s) = graph s"
  by (simp add: step_def graph_fold_examine split: list.splits)

lemma work_pushUnvisited:
  assumes "r \<in> mentioned (graph s)"
  shows "work (pushUnvisited r s) = work s"
proof (cases "r \<in> set (visitedNodes s)")
  case True
  then show ?thesis by (simp add: pushUnvisited_def)
next
  case False
  let ?U = "mentioned (graph s) - set (visitedNodes s)"
  have fin: "finite ?U" by (simp add: finite_mentioned)
  have mem: "r \<in> ?U" using assms False by simp
  have "mentioned (graph s) - set (visitedNodes s @ [r]) = ?U - {r}" by auto
  then have "card (mentioned (graph s) - set (visitedNodes s @ [r])) = card ?U - 1"
    using fin mem by simp
  moreover have "0 < card ?U" using fin mem by (auto simp: card_gt_0_iff)
  ultimately show ?thesis using False by (simp add: pushUnvisited_def work_def add_def)
qed

lemma work_fold_pushUnvisited:
  "set rs \<subseteq> mentioned (graph s) \<Longrightarrow> work (fold pushUnvisited rs s) = work s"
  by (induction rs arbitrary: s) (simp_all add: work_pushUnvisited graph_pushUnvisited)

lemma work_examine: "work (examine d c r s) = work s"
proof -
  have "work (fold pushUnvisited (referrers (entryAt (graph s) c)) t) = work t"
    if "graph t = graph s" for t
    using that referrers_mentioned [of "graph s" c] by (simp add: work_fold_pushUnvisited)
  then show ?thesis by (simp add: examine_def work_def)
qed

lemma work_fold_examine: "work (fold (examine d c) rs s) = work s"
  by (induction rs arbitrary: s) (simp_all add: work_examine)

lemma work_step: "stack s \<noteq> [] \<Longrightarrow> work (step d s) < work s"
  by (cases "stack s") (simp_all add: step_def work_fold_examine, simp add: work_def)

termination loop
  by (relation "measure (\<lambda>(d, s). work s)") (simp_all add: work_step)

section \<open>Facts about the loop\<close>

declare loop.simps [simp del]

lemma loop_done: "stack s = [] \<Longrightarrow> loop d s = s"
  by (subst loop.simps) simp

lemma loop_more: "stack s \<noteq> [] \<Longrightarrow> loop d s = loop d (step d s)"
  by (subst loop.simps) simp

lemma loop_invariant:
  assumes "P s" and "\<And>t. P t \<Longrightarrow> stack t \<noteq> [] \<Longrightarrow> P (step d t)"
  shows "P (loop d s)"
  using assms
proof (induction d s rule: loop.induct)
  case (1 d s)
  show ?case
  proof (cases "stack s = []")
    case True
    with "1.prems" show ?thesis by (simp add: loop_done)
  next
    case False
    then have "P (step d s)" using "1.prems" by simp
    then have "P (loop d (step d s))" using "1.IH" [OF False] "1.prems"(2) by blast
    then show ?thesis using False by (simp add: loop_more)
  qed
qed

lemma stack_loop: "stack (loop d s) = []"
proof (induction d s rule: loop.induct)
  case (1 d s)
  then show ?case by (cases "stack s = []") (simp_all add: loop_done loop_more)
qed

lemma fold_invariant:
  assumes "P s" and "\<And>x t. x \<in> set xs \<Longrightarrow> P t \<Longrightarrow> P (f x t)"
  shows "P (fold f xs s)"
  using assms by (induction xs arbitrary: s) simp_all


lemma stackInv_init: "stackInv (init h e)"
  by (simp add: stackInv_def init_def)

lemma stackInv_pushUnvisited: "stackInv s \<Longrightarrow> stackInv (pushUnvisited r s)"
  by (auto simp: stackInv_def pushUnvisited_def add_def)

lemma stackInv_fold_pushUnvisited: "stackInv s \<Longrightarrow> stackInv (fold pushUnvisited rs s)"
  by (induction rs arbitrary: s) (simp_all add: stackInv_pushUnvisited)

lemma stackInv_examine:
  assumes "stackInv s"
  shows "stackInv (examine d c r s)"
proof -
  have a: "stackInv (s\<lparr>determinants := ds\<rparr>)" for ds
    using assms by (simp add: stackInv_def)
  have b: "stackInv (s\<lparr>transitiveReferrers := ts\<rparr>)" for ts
    using assms by (simp add: stackInv_def)
  have c: "stackInv (s\<lparr>errors := es\<rparr>)" for es
    using assms by (simp add: stackInv_def)
  show ?thesis
    unfolding examine_def
    by (simp only: a b c stackInv_fold_pushUnvisited if_split simp_thms)
qed

lemma stackInv_fold_examine: "stackInv s \<Longrightarrow> stackInv (fold (examine d c) rs s)"
  by (induction rs arbitrary: s) (simp_all add: stackInv_examine)

lemma stackInv_step:
  assumes "stackInv s"
  shows "stackInv (step d s)"
proof (cases "stack s")
  case Nil
  with assms show ?thesis by (simp add: step_def)
next
  case (Cons c rest)
  with assms have "stackInv (s\<lparr>stack := rest, pops := pops s @ [c]\<rparr>)"
    by (auto simp: stackInv_def)
  then have "stackInv (fold (examine d c) (referrers (entryAt (graph s) c))
      (s\<lparr>stack := rest, pops := pops s @ [c]\<rparr>))"
    by (rule stackInv_fold_examine)
  with Cons show ?thesis by (simp add: step_def)
qed

lemma stackInv_loop: "stackInv s \<Longrightarrow> stackInv (loop d s)"
  by (rule loop_invariant [where P = stackInv]) (simp_all add: stackInv_step)

lemma visited_pushUnvisited:
  "set (visitedNodes (pushUnvisited r s)) = insert r (set (visitedNodes s))"
  by (auto simp: pushUnvisited_def add_def)

lemma visited_fold_pushUnvisited:
  "set (visitedNodes (fold pushUnvisited rs s)) = set (visitedNodes s) \<union> set rs"
  by (induction rs arbitrary: s) (auto simp: visited_pushUnvisited)

lemma visited_examine_bound:
  "set (visitedNodes (examine d c r s)) \<subseteq>
     set (visitedNodes s) \<union> set (referrers (entryAt (graph s) c))"
  by (simp add: examine_def visited_fold_pushUnvisited)

lemma visited_fold_examine_bound:
  "set (visitedNodes (fold (examine d c) rs s)) \<subseteq> set (visitedNodes s) \<union> mentioned (graph s)"
proof (induction rs arbitrary: s)
  case Nil
  then show ?case by simp
next
  case (Cons x xs)
  have "set (visitedNodes (examine d c x s)) \<subseteq> set (visitedNodes s) \<union> mentioned (graph s)"
    using visited_examine_bound [of d c x s] referrers_mentioned [of "graph s" c] by blast
  with Cons [of "examine d c x s"] show ?case by (auto simp: graph_examine)
qed

lemma visited_step_bound:
  "set (visitedNodes (step d s)) \<subseteq> set (visitedNodes s) \<union> mentioned (graph s)"
proof (cases "stack s")
  case Nil
  then show ?thesis by (simp add: step_def)
next
  case (Cons c rest)
  then show ?thesis
    using visited_fold_examine_bound
      [of d c "referrers (entryAt (graph s) c)" "s\<lparr>stack := rest, pops := pops s @ [c]\<rparr>"]
    by (simp add: step_def)
qed

lemma graph_loop: "graph (loop d s) = graph s"
  by (rule loop_invariant [where P = "\<lambda>t. graph t = graph s"]) (simp_all add: graph_step)

lemma visited_loop_bound:
  "set (visitedNodes (loop d s)) \<subseteq> set (visitedNodes s) \<union> mentioned (graph s)"
proof -
  let ?P = "\<lambda>t::Search. graph t = graph s \<and>
    set (visitedNodes t) \<subseteq> set (visitedNodes s) \<union> mentioned (graph s)"
  have "?P (loop d s)"
  proof (rule loop_invariant [where P = ?P])
    show "?P s" by simp
  next
    fix t assume "?P t"
    then show "?P (step d t)" using visited_step_bound [of d t] by (auto simp: graph_step)
  qed
  then show ?thesis by simp
qed

section \<open>Invariants hold throughout the search\<close>

lemma set_add: "set (add x xs) = insert x (set xs)"
  by (auto simp: add_def)

lemma distinct_add: "distinct xs \<Longrightarrow> distinct (add x xs)"
  by (simp add: add_def)

lemma results_pushUnvisited:
  "determinants (pushUnvisited r s) = determinants s"
  "transitiveReferrers (pushUnvisited r s) = transitiveReferrers s"
  "errors (pushUnvisited r s) = errors s"
  "pops (pushUnvisited r s) = pops s"
  by (simp_all add: pushUnvisited_def)

lemma results_fold_pushUnvisited:
  "determinants (fold pushUnvisited rs s) = determinants s"
  "transitiveReferrers (fold pushUnvisited rs s) = transitiveReferrers s"
  "errors (fold pushUnvisited rs s) = errors s"
  "pops (fold pushUnvisited rs s) = pops s"
  by (induction rs arbitrary: s) (simp_all add: results_pushUnvisited)

lemma determinants_examine:
  "determinants (examine d c r s) =
     (if declares (graph s) d r then add r (determinants s) else determinants s)"
  by (simp add: examine_def results_fold_pushUnvisited)

lemma transitiveReferrers_examine:
  "transitiveReferrers (examine d c r s) =
     (if \<not> declares (graph s) d r \<and> carries (graph s) d r
      then add r (transitiveReferrers s) else transitiveReferrers s)"
  by (simp add: examine_def results_fold_pushUnvisited)

lemma errors_examine:
  "errors (examine d c r s) =
     (if \<not> declares (graph s) d r \<and> \<not> carries (graph s) d r
      then errors s @ [(d, r, c)] else errors s)"
  by (simp add: examine_def results_fold_pushUnvisited)

lemma pops_examine: "pops (examine d c r s) = pops s"
  by (simp add: examine_def results_fold_pushUnvisited)

lemma pops_fold_examine: "pops (fold (examine d c) rs s) = pops s"
  by (induction rs arbitrary: s) (simp_all add: pops_examine)

lemma visited_examine:
  "set (visitedNodes (examine d c r s)) =
     (if declares (graph s) d r then set (visitedNodes s)
      else set (visitedNodes s) \<union> set (referrers (entryAt (graph s) c)))"
  by (simp add: examine_def visited_fold_pushUnvisited)

lemma resultInv_examine:
  assumes "resultInv d s"
  shows "resultInv d (examine d c r s)"
  using assms
  by (auto simp: resultInv_def determinants_examine transitiveReferrers_examine
      graph_examine set_add distinct_add)

lemma resultInv_fold_examine: "resultInv d s \<Longrightarrow> resultInv d (fold (examine d c) rs s)"
  by (induction rs arbitrary: s) (simp_all add: resultInv_examine)

lemma resultInv_step:
  assumes "resultInv d s"
  shows "resultInv d (step d s)"
proof (cases "stack s")
  case Nil
  with assms show ?thesis by (simp add: step_def)
next
  case (Cons c rest)
  from assms have "resultInv d (s\<lparr>stack := rest, pops := pops s @ [c]\<rparr>)"
    by (simp add: resultInv_def)
  then have "resultInv d (fold (examine d c) (referrers (entryAt (graph s) c))
      (s\<lparr>stack := rest, pops := pops s @ [c]\<rparr>))"
    by (rule resultInv_fold_examine)
  with Cons show ?thesis by (simp add: step_def)
qed

lemma resultInv_loop: "resultInv d s \<Longrightarrow> resultInv d (loop d s)"
  by (rule loop_invariant [where P = "resultInv d"]) (simp_all add: resultInv_step)

lemma resultInv_init: "resultInv d (init h e)"
  by (simp add: resultInv_def init_def)

lemma examined_pop:
  "examined d c r (s\<lparr>stack := st, pops := ps\<rparr>) = examined d c r s"
  by (simp add: examined_def)

lemma examined_examine_keep:
  "examined d c r s \<Longrightarrow> examined d c r (examine d c' r' s)"
  by (auto simp: examined_def graph_examine determinants_examine transitiveReferrers_examine
      errors_examine visited_examine set_add split: if_splits)

lemma examined_fold_keep:
  "examined d c r s \<Longrightarrow> examined d c r (fold (examine d c') rs s)"
  by (induction rs arbitrary: s) (simp_all add: examined_examine_keep)

lemma examined_examine_self:
  "r \<in> set (referrers (entryAt (graph s) c)) \<Longrightarrow> examined d c r (examine d c r s)"
  by (auto simp: examined_def graph_examine determinants_examine transitiveReferrers_examine
      errors_examine visited_examine set_add)

lemma examined_fold_self:
  assumes "r \<in> set rs" and "set rs \<subseteq> set (referrers (entryAt (graph s) c))"
  shows "examined d c r (fold (examine d c) rs s)"
  using assms
proof (induction rs arbitrary: s)
  case Nil
  then show ?case by simp
next
  case (Cons x xs)
  show ?case
  proof (cases "r = x")
    case True
    with Cons.prems have "examined d c r (examine d c x s)"
      by (simp add: examined_examine_self)
    then show ?thesis by (simp add: examined_fold_keep)
  next
    case False
    with Cons.prems have "r \<in> set xs"
      and "set xs \<subseteq> set (referrers (entryAt (graph (examine d c x s)) c))"
      by (simp_all add: graph_examine)
    then have "examined d c r (fold (examine d c) xs (examine d c x s))"
      by (rule Cons.IH)
    then show ?thesis by simp
  qed
qed

lemma examinedInv_init: "examinedInv d (init h e)"
  by (simp add: examinedInv_def init_def)

lemma examinedInv_step:
  assumes "examinedInv d s"
  shows "examinedInv d (step d s)"
proof (cases "stack s")
  case Nil
  with assms show ?thesis by (simp add: step_def)
next
  case (Cons c rest)
  let ?p = "s\<lparr>stack := rest, pops := pops s @ [c]\<rparr>"
  let ?rs = "referrers (entryAt (graph s) c)"
  let ?t = "fold (examine d c) ?rs ?p"
  have t: "step d s = ?t" using Cons by (simp add: step_def)
  have g: "graph ?t = graph s" by (simp add: graph_fold_examine)
  have p: "pops ?t = pops s @ [c]" by (simp add: pops_fold_examine)
  have "examined d c' r ?t"
    if c': "c' \<in> set (pops s @ [c])" and r: "r \<in> set (referrers (entryAt (graph s) c'))"
    for c' r
  proof (cases "c' \<in> set (pops s)")
    case True
    with assms r have "examined d c' r s" by (simp add: examinedInv_def)
    then have "examined d c' r ?p" by (simp add: examined_pop)
    then show ?thesis by (rule examined_fold_keep)
  next
    case False
    with c' have "c' = c" by simp
    with r have "r \<in> set ?rs" by simp
    moreover have "set ?rs \<subseteq> set (referrers (entryAt (graph ?p) c))" by simp
    ultimately have "examined d c r ?t" by (rule examined_fold_self)
    with \<open>c' = c\<close> show ?thesis by simp
  qed
  then show ?thesis unfolding t examinedInv_def g p by blast
qed

lemma examinedInv_loop: "examinedInv d s \<Longrightarrow> examinedInv d (loop d s)"
  by (rule loop_invariant [where P = "examinedInv d"]) (simp_all add: examinedInv_step)

lemma errors_fold_examine:
  "errors (fold (examine d c) rs s) = errors s @ reported (graph s) d c rs"
  by (induction rs arbitrary: s) (simp_all add: reported_def errors_examine graph_examine)

lemma errorsInv_init: "errorsInv d (init h e)"
  by (simp add: errorsInv_def init_def)

lemma errorsInv_step:
  assumes "errorsInv d s"
  shows "errorsInv d (step d s)"
proof (cases "stack s")
  case Nil
  with assms show ?thesis by (simp add: step_def)
next
  case (Cons c rest)
  with assms show ?thesis
    by (simp add: step_def errorsInv_def errors_fold_examine graph_fold_examine pops_fold_examine)
qed

lemma errorsInv_loop: "errorsInv d s \<Longrightarrow> errorsInv d (loop d s)"
  by (rule loop_invariant [where P = "errorsInv d"]) (simp_all add: errorsInv_step)

lemma count_reported:
  "count_list (reported h d c' rs) (d, r, c) =
     (if c' = c \<and> \<not> declares h d r \<and> \<not> carries h d r then count_list rs r else 0)"
  by (induction rs) (auto simp: reported_def)

lemma count_reported_concat:
  "distinct ps \<Longrightarrow>
   count_list (concat (map (\<lambda>c'. reported h d c' (F c')) ps)) (d, r, c) =
     (if c \<in> set ps \<and> \<not> declares h d r \<and> \<not> carries h d r then count_list (F c) r else 0)"
  by (induction ps) (auto simp: count_reported)

lemma set_reported:
  "set (reported h d c rs) =
     {(d, r, c) | r. r \<in> set rs \<and> \<not> declares h d r \<and> \<not> carries h d r}"
  by (auto simp: reported_def)

section \<open>The claims\<close>

text \<open>
  Claim C1 (as amended). Let \<open>c\<close> be an entry that the search pops and \<open>r\<close> a referrer
  of \<open>c\<close> that does not declare the traced name and has it in its
  \<open>transitivePeerDependencies\<close>. Then \<open>r\<close> is classified as a transitive referrer, and the
  search goes on through \<open>r\<close> itself: \<open>r\<close> is pushed (the loop of lines 93 to 98 runs over
  the referrers of the popped entry, \<open>r\<close> among them, and pushes those not yet visited),
  \<open>r\<close> is popped, and every referrer of \<open>r\<close> is then examined: it ends as a determinant,
  as a transitive referrer, or in a diagnostic that names it with \<open>r\<close>.
\<close>

theorem transitive_referrer_classified_and_expanded:
  assumes "c \<in> set (pops (calculateInfluencers h e d))"
    and "r \<in> set (referrers (entryAt h c))"
    and "\<not> hasDependency (dependencies (entryAt h r)) (name d)"
    and "name d \<in> transitivePeerDependencies (entryAt h r)"
  shows "r \<in> set (transitiveReferrers (calculateInfluencers h e d)) \<and>
    r \<in> set (pushes (calculateInfluencers h e d)) \<and>
    r \<in> set (pops (calculateInfluencers h e d)) \<and>
    (\<forall>r' \<in> set (referrers (entryAt h r)).
       r' \<in> set (determinants (calculateInfluencers h e d)) \<or>
       r' \<in> set (transitiveReferrers (calculateInfluencers h e d)) \<or>
       (d, r', r) \<in> set (errors (calculateInfluencers h e d)))"
proof -
  let ?f = "calculateInfluencers h e d"
  have g: "graph ?f = h"
    by (simp add: calculateInfluencers_def graph_loop init_def)
  have ex: "examinedInv d ?f"
    unfolding calculateInfluencers_def by (rule examinedInv_loop) (rule examinedInv_init)
  have st: "stackInv ?f"
    unfolding calculateInfluencers_def by (rule stackInv_loop) (rule stackInv_init)
  have empty: "stack ?f = []"
    by (simp add: calculateInfluencers_def stack_loop)
  from st empty have vis: "set (visitedNodes ?f) = set (pops ?f)" "pushes ?f = visitedNodes ?f"
    by (simp_all add: stackInv_def)
  from ex assms(1,2) g have "examined d c r ?f"
    by (simp add: examinedInv_def)
  with assms(3,4) g have tr: "r \<in> set (transitiveReferrers ?f)" and v: "r \<in> set (visitedNodes ?f)"
    by (simp_all add: examined_def)
  from v vis have p: "r \<in> set (pops ?f)" and q: "r \<in> set (pushes ?f)" by simp_all
  have "r' \<in> set (determinants ?f) \<or> r' \<in> set (transitiveReferrers ?f) \<or>
      (d, r', r) \<in> set (errors ?f)"
    if "r' \<in> set (referrers (entryAt h r))" for r'
  proof -
    from ex p that g have "examined d r r' ?f" by (simp add: examinedInv_def)
    then show ?thesis by (auto simp: examined_def split: if_splits)
  qed
  with tr p q show ?thesis by blast
qed

text \<open>
  The theorem on the chain: \<open>T\<close> is a referrer of the popped \<open>Root\<close> that carries
  \<open>PeerLib\<close>; it is a transitive referrer, it is popped, and its referrer \<open>D\<close> is
  examined and found to be a determinant.
\<close>

theorem transitive_referrer_classified_and_expanded_witness:
  "0 \<in> set (pops (calculateInfluencers chainGraph 0 peerLib)) \<and>
   1 \<in> set (referrers (entryAt chainGraph 0)) \<and>
   \<not> hasDependency (dependencies (entryAt chainGraph 1)) (name peerLib) \<and>
   name peerLib \<in> transitivePeerDependencies (entryAt chainGraph 1) \<and>
   1 \<in> set (transitiveReferrers (calculateInfluencers chainGraph 0 peerLib)) \<and>
   1 \<in> set (pops (calculateInfluencers chainGraph 0 peerLib)) \<and>
   referrers (entryAt chainGraph 1) = [2] \<and>
   2 \<in> set (determinants (calculateInfluencers chainGraph 0 peerLib))"
proof -
  have a: "0 \<in> set (pops (calculateInfluencers chainGraph 0 peerLib))" by code_simp
  have b: "1 \<in> set (referrers (entryAt chainGraph 0))" by code_simp
  have c: "\<not> hasDependency (dependencies (entryAt chainGraph 1)) (name peerLib)" by code_simp
  have d: "name peerLib \<in> transitivePeerDependencies (entryAt chainGraph 1)" by code_simp
  have e: "referrers (entryAt chainGraph 1) = [2]" by code_simp
  have f: "2 \<in> set (determinants (calculateInfluencers chainGraph 0 peerLib))" by code_simp
  from transitive_referrer_classified_and_expanded [OF a b c d] a b c d e f
  show ?thesis by simp
qed

text \<open>
  Claim C1 as stated fails on the chain: \<open>D\<close> is a referrer of the transitive referrer
  \<open>T\<close> and is not marked as visited at any time, and still it is never pushed onto the
  stack. Only \<open>Root\<close> and \<open>T\<close> are.
\<close>

theorem referrers_of_transitive_referrer_not_pushed:
  "0 \<in> set (pops (calculateInfluencers chainGraph 0 peerLib)) \<and>
   1 \<in> set (referrers (entryAt chainGraph 0)) \<and>
   \<not> hasDependency (dependencies (entryAt chainGraph 1)) (name peerLib) \<and>
   name peerLib \<in> transitivePeerDependencies (entryAt chainGraph 1) \<and>
   2 \<in> set (referrers (entryAt chainGraph 1)) \<and>
   2 \<notin> set (visitedNodes (calculateInfluencers chainGraph 0 peerLib)) \<and>
   2 \<notin> set (pushes (calculateInfluencers chainGraph 0 peerLib)) \<and>
   pushes (calculateInfluencers chainGraph 0 peerLib) = [0, 1]"
  by code_simp

text \<open>
  Claim C2. The claim says that the search never expands past a determinant. The code
  does when the determinant has a sibling that is not one: with \<open>Root\<close> referred to by
  \<open>D\<close> and \<open>T\<close>, the inner loop that \<open>T\<close> triggers pushes \<open>D\<close> as well, \<open>D\<close> is popped and
  its referrer \<open>E\<close> is examined and lands among the determinants. With \<open>D\<close> as the only
  referrer of \<open>Root\<close>, \<open>D\<close> is not pushed and \<open>E\<close> is not reached.
\<close>

theorem determinant_with_sibling_is_expanded:
  "determinants (calculateInfluencers (siblingGraph [1, 2]) 0 peerLib) = [1, 3] \<and>
   pushes (calculateInfluencers (siblingGraph [1, 2]) 0 peerLib) = [0, 1, 2] \<and>
   pops (calculateInfluencers (siblingGraph [1, 2]) 0 peerLib) = [0, 2, 1] \<and>
   determinants (calculateInfluencers (siblingGraph [1]) 0 peerLib) = [1] \<and>
   pushes (calculateInfluencers (siblingGraph [1]) 0 peerLib) = [0] \<and>
   pops (calculateInfluencers (siblingGraph [1]) 0 peerLib) = [0]"
  by code_simp

text \<open>
  Claim C3 (as amended). Let \<open>c\<close> be an entry that the search pops and \<open>r\<close> a referrer
  of \<open>c\<close> that neither declares the traced name nor has it in its
  \<open>transitivePeerDependencies\<close>. Then the diagnostic that names \<open>r\<close> with \<open>c\<close> is written
  once for each occurrence of \<open>r\<close> in the referrers of \<open>c\<close>, so at least once, and once
  more for every other popped entry that \<open>r\<close> refers to. The traversal is not aborted: it
  runs until the stack is empty, \<open>r\<close> is pushed and popped, and every referrer of \<open>r\<close> is
  examined in turn.
\<close>

theorem missing_annotation_reported_per_examination:
  assumes "c \<in> set (pops (calculateInfluencers h e d))"
    and "r \<in> set (referrers (entryAt h c))"
    and "\<not> hasDependency (dependencies (entryAt h r)) (name d)"
    and "name d \<notin> transitivePeerDependencies (entryAt h r)"
  shows "count_list (errors (calculateInfluencers h e d)) (d, r, c) =
      count_list (referrers (entryAt h c)) r \<and>
    0 < count_list (errors (calculateInfluencers h e d)) (d, r, c) \<and>
    stack (calculateInfluencers h e d) = [] \<and>
    r \<in> set (pushes (calculateInfluencers h e d)) \<and>
    r \<in> set (pops (calculateInfluencers h e d)) \<and>
    (\<forall>r' \<in> set (referrers (entryAt h r)).
       r' \<in> set (determinants (calculateInfluencers h e d)) \<or>
       r' \<in> set (transitiveReferrers (calculateInfluencers h e d)) \<or>
       (d, r', r) \<in> set (errors (calculateInfluencers h e d)))"
proof -
  let ?f = "calculateInfluencers h e d"
  have g: "graph ?f = h"
    by (simp add: calculateInfluencers_def graph_loop init_def)
  have ex: "examinedInv d ?f"
    unfolding calculateInfluencers_def by (rule examinedInv_loop) (rule examinedInv_init)
  have st: "stackInv ?f"
    unfolding calculateInfluencers_def by (rule stackInv_loop) (rule stackInv_init)
  have er: "errorsInv d ?f"
    unfolding calculateInfluencers_def by (rule errorsInv_loop) (rule errorsInv_init)
  have empty: "stack ?f = []"
    by (simp add: calculateInfluencers_def stack_loop)
  from st empty have vis: "set (visitedNodes ?f) = set (pops ?f)" "pushes ?f = visitedNodes ?f"
    and dp: "distinct (pops ?f)"
    by (simp_all add: stackInv_def)
  from er g have "errors ?f =
      concat (map (\<lambda>c'. reported h d c' (referrers (entryAt h c'))) (pops ?f))"
    by (simp add: errorsInv_def)
  then have cnt: "count_list (errors ?f) (d, r, c) = count_list (referrers (entryAt h c)) r"
    using dp assms(1,3,4) by (simp add: count_reported_concat)
  have "count_list (referrers (entryAt h c)) r \<noteq> 0"
    using assms(2) by (simp add: count_list_0_iff)
  with cnt have pos: "0 < count_list (errors ?f) (d, r, c)" by simp
  from ex assms(1,2) g have "examined d c r ?f"
    by (simp add: examinedInv_def)
  with assms(3) g have v: "r \<in> set (visitedNodes ?f)"
    by (simp add: examined_def)
  from v vis have p: "r \<in> set (pops ?f)" and q: "r \<in> set (pushes ?f)" by simp_all
  have "r' \<in> set (determinants ?f) \<or> r' \<in> set (transitiveReferrers ?f) \<or>
      (d, r', r) \<in> set (errors ?f)"
    if "r' \<in> set (referrers (entryAt h r))" for r'
  proof -
    from ex p that g have "examined d r r' ?f" by (simp add: examinedInv_def)
    then show ?thesis by (auto simp: examined_def split: if_splits)
  qed
  with cnt pos empty p q show ?thesis by blast
qed

text \<open>
  The theorem on the diamond: \<open>R\<close> is a referrer of the popped \<open>A\<close>, listed once, and
  the diagnostic for \<open>R\<close> with \<open>A\<close> is written once.
\<close>

theorem missing_annotation_reported_per_examination_witness:
  "1 \<in> set (pops (calculateInfluencers diamondGraph 0 peerLib)) \<and>
   2 \<in> set (referrers (entryAt diamondGraph 1)) \<and>
   \<not> hasDependency (dependencies (entryAt diamondGraph 2)) (name peerLib) \<and>
   name peerLib \<notin> transitivePeerDependencies (entryAt diamondGraph 2) \<and>
   count_list (errors (calculateInfluencers diamondGraph 0 peerLib)) (peerLib, 2, 1) = 1 \<and>
   2 \<in> set (pops (calculateInfluencers diamondGraph 0 peerLib))"
proof -
  have a: "1 \<in> set (pops (calculateInfluencers diamondGraph 0 peerLib))" by code_simp
  have b: "2 \<in> set (referrers (entryAt diamondGraph 1))" by code_simp
  have c: "\<not> hasDependency (dependencies (entryAt diamondGraph 2)) (name peerLib)" by code_simp
  have d: "name peerLib \<notin> transitivePeerDependencies (entryAt diamondGraph 2)" by code_simp
  have e: "count_list (referrers (entryAt diamondGraph 1)) 2 = 1" by code_simp
  from missing_annotation_reported_per_examination [OF a b c d] a b c d e
  show ?thesis by simp
qed

text \<open>
  Claim C3 as stated fails on the diamond: \<open>R\<close> neither declares nor carries
  \<open>PeerLib\<close>, and the search writes two diagnostics for it, one when it examines the
  referrers of \<open>Root\<close> and one when it examines those of \<open>A\<close>.
\<close>

theorem diagnostic_repeated_for_one_node:
  "errors (calculateInfluencers diamondGraph 0 peerLib) = [(peerLib, 2, 0), (peerLib, 2, 1)] \<and>
   \<not> hasDependency (dependencies (entryAt diamondGraph 2)) (name peerLib) \<and>
   name peerLib \<notin> transitivePeerDependencies (entryAt diamondGraph 2) \<and>
   count_list (map (fst \<circ> snd) (errors (calculateInfluencers diamondGraph 0 peerLib))) 2 = 2"
  by code_simp

text \<open>
  Claim C4. On every graph, cyclic or not, the search terminates: \<open>loop\<close> is a total
  function (its termination is proved above, by the measure \<open>work\<close>), and it stops with
  an empty stack. Every entry is pushed at most once and popped at most once: the pushes
  are exactly the insertions into \<open>visitedNodes\<close>, no entry occurs twice among them, the
  popped entries are the pushed ones, and there is at most one pop more than the graph
  has entries listed as referrers.
\<close>

theorem search_terminates:
  "stack (calculateInfluencers h e d) = [] \<and>
   pushes (calculateInfluencers h e d) = visitedNodes (calculateInfluencers h e d) \<and>
   distinct (pushes (calculateInfluencers h e d)) \<and>
   distinct (pops (calculateInfluencers h e d)) \<and>
   set (pops (calculateInfluencers h e d)) = set (pushes (calculateInfluencers h e d)) \<and>
   length (pops (calculateInfluencers h e d)) \<le> Suc (card (mentioned h))"
proof -
  let ?f = "calculateInfluencers h e d"
  have inv: "stackInv ?f"
    unfolding calculateInfluencers_def by (rule stackInv_loop) (rule stackInv_init)
  have empty: "stack ?f = []"
    by (simp add: calculateInfluencers_def stack_loop)
  have sub: "set (visitedNodes ?f) \<subseteq> insert e (mentioned h)"
    using visited_loop_bound [of d "init h e"] by (simp add: calculateInfluencers_def init_def)
  from inv empty have eq: "set (pops ?f) = set (visitedNodes ?f)" and dp: "distinct (pops ?f)"
    by (simp_all add: stackInv_def)
  have "length (pops ?f) = card (set (pops ?f))" using dp by (simp add: distinct_card)
  also have "\<dots> \<le> card (insert e (mentioned h))"
    using sub eq by (simp add: card_mono finite_mentioned)
  also have "\<dots> \<le> Suc (card (mentioned h))"
    by (simp add: card_insert_if finite_mentioned)
  finally have "length (pops ?f) \<le> Suc (card (mentioned h))" .
  with inv empty show ?thesis by (simp add: stackInv_def)
qed

text \<open>
  The theorem on the cycle of \<open>A\<close> and \<open>B\<close>: each is pushed once and popped once.
\<close>

theorem search_terminates_witness:
  "stack (calculateInfluencers cycleGraph 0 peerLib) = [] \<and>
   pushes (calculateInfluencers cycleGraph 0 peerLib) = [0, 1] \<and>
   pops (calculateInfluencers cycleGraph 0 peerLib) = [0, 1] \<and>
   distinct (pops (calculateInfluencers cycleGraph 0 peerLib))"
proof -
  have a: "pushes (calculateInfluencers cycleGraph 0 peerLib) = [0, 1]" by code_simp
  have b: "pops (calculateInfluencers cycleGraph 0 peerLib) = [0, 1]" by code_simp
  from search_terminates [of cycleGraph 0 peerLib]
  have c: "stack (calculateInfluencers cycleGraph 0 peerLib) = []"
    and d: "distinct (pops (calculateInfluencers cycleGraph 0 peerLib))"
    by blast+
  from a b c d show ?thesis by blast
qed

text \<open>
  Claim C5. On the example of the specification, with the referrers of \<open>Root\<close> listed
  as \<open>X\<close>, \<open>Y\<close> or as \<open>Y\<close>, \<open>X\<close>, the search yields exactly \<open>X\<close> as a determinant and
  exactly \<open>Y\<close> as a transitive referrer, and the click handler stores that list.
\<close>

theorem example_partitions:
  "influencersOf (calculateInfluencers (exampleGraph [1, 2]) 0 peerLib) =
     [\<lparr>entry = 1, type = Determinant\<rparr>, \<lparr>entry = 2, type = TransitiveReferrer\<rparr>] \<and>
   influencersOf (calculateInfluencers (exampleGraph [2, 1]) 0 peerLib) =
     [\<lparr>entry = 1, type = Determinant\<rparr>, \<lparr>entry = 2, type = TransitiveReferrer\<rparr>] \<and>
   influencers (selectResolvedEntry peerLib exampleView) =
     [\<lparr>entry = 1, type = Determinant\<rparr>, \<lparr>entry = 2, type = TransitiveReferrer\<rparr>]"
  by code_simp

text \<open>
  Claim C6. The search has no failing branch: on every graph it runs until the stack is
  empty and returns a list that splits, by the \<open>type\<close> field as the view splits it (lines
  191 and 192), into the determinants and the transitive referrers. When the selected
  entry has no referrers, both parts are empty and nothing is reported.
\<close>

theorem search_returns_two_partitions:
  "stack (calculateInfluencers h e d) = [] \<and>
   filter (\<lambda>i. type i = Determinant) (influencersOf (calculateInfluencers h e d)) =
     map (\<lambda>x. \<lparr>entry = x, type = Determinant\<rparr>) (determinants (calculateInfluencers h e d)) \<and>
   filter (\<lambda>i. type i = TransitiveReferrer) (influencersOf (calculateInfluencers h e d)) =
     map (\<lambda>x. \<lparr>entry = x, type = TransitiveReferrer\<rparr>)
       (transitiveReferrers (calculateInfluencers h e d)) \<and>
   (referrers (entryAt h e) = [] \<longrightarrow>
      influencersOf (calculateInfluencers h e d) = [] \<and> errors (calculateInfluencers h e d) = [])"
proof -
  let ?f = "calculateInfluencers h e d"
  have empty: "stack ?f = []"
    by (simp add: calculateInfluencers_def stack_loop)
  have dets: "filter (\<lambda>i. type i = Determinant) (influencersOf ?f) =
      map (\<lambda>x. \<lparr>entry = x, type = Determinant\<rparr>) (determinants ?f)"
    by (simp add: influencersOf_def filter_map o_def)
  have trs: "filter (\<lambda>i. type i = TransitiveReferrer) (influencersOf ?f) =
      map (\<lambda>x. \<lparr>entry = x, type = TransitiveReferrer\<rparr>) (transitiveReferrers ?f)"
    by (simp add: influencersOf_def filter_map o_def)
  have none: "influencersOf ?f = [] \<and> errors ?f = []" if "referrers (entryAt h e) = []"
  proof -
    let ?t = "(init h e)\<lparr>stack := [], pops := [e]\<rparr>"
    have ne: "stack (init h e) \<noteq> []" by (simp add: init_def)
    have st: "step d (init h e) = ?t"
      using that by (simp add: step_def init_def)
    have "loop d (init h e) = loop d (step d (init h e))"
      using ne by (rule loop_more)
    also have "\<dots> = loop d ?t" by (simp only: st)
    also have "\<dots> = ?t" by (rule loop_done) simp
    finally have "?f = ?t" by (simp only: calculateInfluencers_def)
    then show ?thesis by (simp add: influencersOf_def init_def)
  qed
  from empty dets trs none show ?thesis by blast
qed

text \<open>
  The theorem on \<open>Root\<close> without referrers.
\<close>

theorem search_returns_two_partitions_witness:
  "referrers (entryAt (exampleGraph []) 0) = [] \<and>
   stack (calculateInfluencers (exampleGraph []) 0 peerLib) = [] \<and>
   influencersOf (calculateInfluencers (exampleGraph []) 0 peerLib) = []"
proof -
  have a: "referrers (entryAt (exampleGraph []) 0) = []" by code_simp
  from search_returns_two_partitions [of "exampleGraph []" 0 peerLib] a
  show ?thesis by simp
qed

text \<open>
  Claim C7. For a dependency that is not a peer dependency the handler does not walk the
  graph: what it returns does not depend on the entries (with other entries in place the
  outcome is the same), the entries and the stored influencers are left as they were, and
  the console gets no \<open>console.error\<close> diagnostic, only the handler's own line, if any.
\<close>

theorem non_peer_dependency_skips_search:
  assumes "dependencyType d \<noteq> PEER_DEPENDENCY"
  shows "selectResolvedEntry d (v\<lparr>entries := h'\<rparr>) = (selectResolvedEntry d v)\<lparr>entries := h'\<rparr> \<and>
    entries (selectResolvedEntry d v) = entries v \<and>
    influencers (selectResolvedEntry d v) = influencers v \<and>
    (console (selectResolvedEntry d v) = console v \<or>
     console (selectResolvedEntry d v) = console v @ [NoResolvedEntry d] \<or>
     console (selectResolvedEntry d v) = console v @ [DependencyToTrace d])"
  using assms by (simp add: selectResolvedEntry_def split: option.splits)

text \<open>
  The theorem on a click on the regular dependency \<open>lodash\<close> in the example view.
\<close>

theorem non_peer_dependency_skips_search_witness:
  "dependencyType lodash \<noteq> PEER_DEPENDENCY \<and>
   selectResolvedEntry lodash (exampleView\<lparr>entries := diamondGraph\<rparr>) =
     (selectResolvedEntry lodash exampleView)\<lparr>entries := diamondGraph\<rparr> \<and>
   entries (selectResolvedEntry lodash exampleView) = entries exampleView \<and>
   influencers (selectResolvedEntry lodash exampleView) = influencers exampleView \<and>
   console (selectResolvedEntry lodash exampleView) = [DependencyToTrace lodash]"
proof -
  have a: "dependencyType lodash \<noteq> PEER_DEPENDENCY" by code_simp
  have b: "console (selectResolvedEntry lodash exampleView) = [DependencyToTrace lodash]"
    by code_simp
  from non_peer_dependency_skips_search [OF a, where v = exampleView and h' = diamondGraph] a b
  show ?thesis by simp
qed

text \<open>
  Claim C8. The search never writes to the graph: the entries after the search are the
  entries before it, for the search itself and for the handler around it. What the search
  writes to the console are diagnostics of the inconsistency case only: each names the
  traced dependency, a popped entry and a referrer of it that neither declares the name
  nor carries it.
\<close>

theorem search_leaves_graph_unchanged:
  "graph (calculateInfluencers h e d) = h \<and>
   entries (selectResolvedEntry d' v) = entries v \<and>
   set (errors (calculateInfluencers h e d)) \<subseteq>
     {(d, r, c) | r c. c \<in> set (pops (calculateInfluencers h e d)) \<and>
        r \<in> set (referrers (entryAt h c)) \<and>
        \<not> hasDependency (dependencies (entryAt h r)) (name d) \<and>
        name d \<notin> transitivePeerDependencies (entryAt h r)}"
proof -
  let ?f = "calculateInfluencers h e d"
  have g: "graph ?f = h"
    by (simp add: calculateInfluencers_def graph_loop init_def)
  have "graph (calculateInfluencers (entries v) x d') = entries v" for x
    by (simp add: calculateInfluencers_def graph_loop init_def)
  then have en: "entries (selectResolvedEntry d' v) = entries v"
    by (simp add: selectResolvedEntry_def Let_def split: option.splits)
  have er: "errorsInv d ?f"
    unfolding calculateInfluencers_def by (rule errorsInv_loop) (rule errorsInv_init)
  with g have "errors ?f =
      concat (map (\<lambda>c'. reported h d c' (referrers (entryAt h c'))) (pops ?f))"
    by (simp add: errorsInv_def)
  then have "set (errors ?f) =
      (\<Union>c' \<in> set (pops ?f). set (reported h d c' (referrers (entryAt h c'))))"
    by simp
  then have "set (errors ?f) \<subseteq>
     {(d, r, c) | r c. c \<in> set (pops ?f) \<and> r \<in> set (referrers (entryAt h c)) \<and>
        \<not> hasDependency (dependencies (entryAt h r)) (name d) \<and>
        name d \<notin> transitivePeerDependencies (entryAt h r)}"
    by (auto simp: set_reported)
  with g en show ?thesis by blast
qed

text \<open>
  Claim C9. The two result sets are duplicate-free and disjoint, and so is the list built
  from them: a determinant declares the traced name and a transitive referrer does not,
  which depends on the referrer alone and not on when it is examined.
\<close>

theorem partitions_disjoint_and_duplicate_free:
  "distinct (determinants (calculateInfluencers h e d)) \<and>
   distinct (transitiveReferrers (calculateInfluencers h e d)) \<and>
   set (determinants (calculateInfluencers h e d)) \<inter>
     set (transitiveReferrers (calculateInfluencers h e d)) = {} \<and>
   distinct (map entry (influencersOf (calculateInfluencers h e d))) \<and>
   set (determinants (calculateInfluencers h e d)) \<subseteq>
     {r. hasDependency (dependencies (entryAt h r)) (name d)} \<and>
   set (transitiveReferrers (calculateInfluencers h e d)) \<subseteq>
     {r. \<not> hasDependency (dependencies (entryAt h r)) (name d) \<and>
         name d \<in> transitivePeerDependencies (entryAt h r)}"
proof -
  let ?f = "calculateInfluencers h e d"
  have g: "graph ?f = h"
    by (simp add: calculateInfluencers_def graph_loop init_def)
  have "resultInv d ?f"
    unfolding calculateInfluencers_def by (rule resultInv_loop) (rule resultInv_init)
  with g have dd: "distinct (determinants ?f)" and dt: "distinct (transitiveReferrers ?f)"
    and sd: "set (determinants ?f) \<subseteq> {r. hasDependency (dependencies (entryAt h r)) (name d)}"
    and st: "set (transitiveReferrers ?f) \<subseteq>
      {r. \<not> hasDependency (dependencies (entryAt h r)) (name d) \<and>
          name d \<in> transitivePeerDependencies (entryAt h r)}"
    by (auto simp: resultInv_def)
  from sd st have disj: "set (determinants ?f) \<inter> set (transitiveReferrers ?f) = {}"
    by blast
  have "map entry (influencersOf ?f) = determinants ?f @ transitiveReferrers ?f"
    by (simp add: influencersOf_def o_def)
  with dd dt disj have "distinct (map entry (influencersOf ?f))" by simp
  with dd dt disj sd st show ?thesis by blast
qed

text \<open>
  Claim C10. A click that selects a dependency that is not a peer dependency for
  inspection (an entry is selected, and the dependency is not the one already inspected)
  makes it the inspected dependency and leaves the stored influencers as they were.
\<close>

theorem non_peer_selection_keeps_influencers:
  assumes "dependencyType d \<noteq> PEER_DEPENDENCY"
    and "selectedEntry v = Some e"
    and "map_option entryId (inspectDependency v) \<noteq> Some (entryId d)"
  shows "inspectDependency (selectResolvedEntry d v) = Some d \<and>
    influencers (selectResolvedEntry d v) = influencers v"
  using assms by (auto simp: selectResolvedEntry_def split: option.splits)

text \<open>
  The theorem after a search: the click on \<open>PeerLib\<close> stores \<open>X\<close> and \<open>Y\<close>, and the
  click on \<open>lodash\<close> that follows leaves them in place.
\<close>

theorem non_peer_selection_keeps_influencers_witness:
  "dependencyType lodash \<noteq> PEER_DEPENDENCY \<and>
   selectedEntry (selectResolvedEntry peerLib exampleView) = Some 0 \<and>
   map_option entryId (inspectDependency (selectResolvedEntry peerLib exampleView)) \<noteq>
     Some (entryId lodash) \<and>
   inspectDependency (selectResolvedEntry lodash (selectResolvedEntry peerLib exampleView)) =
     Some lodash \<and>
   influencers (selectResolvedEntry lodash (selectResolvedEntry peerLib exampleView)) =
     [\<lparr>entry = 1, type = Determinant\<rparr>, \<lparr>entry = 2, type = TransitiveReferrer\<rparr>]"
proof -
  have a: "dependencyType lodash \<noteq> PEER_DEPENDENCY" by code_simp
  have b: "selectedEntry (selectResolvedEntry peerLib exampleView) = Some 0" by code_simp
  have c: "map_option entryId (inspectDependency (selectResolvedEntry peerLib exampleView)) \<noteq>
     Some (entryId lodash)" by code_simp
  have d: "influencers (selectResolvedEntry peerLib exampleView) =
     [\<lparr>entry = 1, type = Determinant\<rparr>, \<lparr>entry = 2, type = TransitiveReferrer\<rparr>]"
    by code_simp
  from non_peer_selection_keeps_influencers [OF a b c] a b c d
  show ?thesis by simp
qed

end
